theory Spec2Isabelle
  imports Main "HOL-Library.Word" "HOL-Library.AList"
begin

section \<open>Time-tick synchronisation of the root coordinator\<close>

text \<open>
  A shallow embedding of \<^verbatim>\<open>internal/rootcoord/timeticksync.go\<close>: the per-proxy tick
  table, the set of outstanding DDL timestamps with its cached minimum, the drain of a
  complete round into the buffered channel \<^verbatim>\<open>sendChan\<close>, and one iteration of the
  loop of \<^verbatim>\<open>startWatch\<close> that reduces a drained round to one time tick per channel.

  Go maps are association lists with distinct keys (\<^verbatim>\<open>m[k] = v\<close> is
  \<open>AList.update\<close>, \<^verbatim>\<open>delete(m, k)\<close> is \<open>AList.delete\<close>, a lookup is
  \<open>map_of\<close>); the order in which Go ranges over a map is not fixed, and nothing below
  depends on the order of a list. A pointer that may be \<^verbatim>\<open>nil\<close> is an \<open>option\<close>.

  Not modelled: logging (with it the count \<^verbatim>\<open>maxCnt\<close> that only decides whether the
  idle warning of \<^verbatim>\<open>sendToChannel\<close> is written), metrics, the long-term checker, the
  end of the watch loop on a cancelled context or a closed channel, and the message
  stream behind \<^verbatim>\<open>dmlChannels.broadcast\<close>: a time tick handed to
  \<^verbatim>\<open>sendTimeTickToChannel\<close> is recorded as a pair of channel name and timestamp,
  whether or not the broadcast then succeeds.
\<close>

subsection \<open>Data\<close>

type_synonym Timestamp = "64 word"  \<comment> \<open>\<^verbatim>\<open>typeutil.Timestamp\<close>, a \<^verbatim>\<open>uint64\<close>\<close>
type_synonym UniqueID = "64 word"   \<comment> \<open>\<^verbatim>\<open>typeutil.UniqueID\<close>, an \<^verbatim>\<open>int64\<close>, only compared for equality\<close>

definition MaxUint64 :: Timestamp where
  "MaxUint64 = 18446744073709551615"

text \<open>The fields of \<^verbatim>\<open>internalpb.ChannelTimeTickMsg\<close> that the code reads.\<close>

record ChannelTimeTickMsg =
  SourceID :: UniqueID
  ChannelNames :: "string list"
  Timestamps :: "Timestamp list"
  DefaultTimestamp :: Timestamp

record chanTsMsg =
  chanTs :: "(string \<times> Timestamp) list"
  defaultTs :: Timestamp
  cnt :: "64 word"

type_synonym proxyTable = "(UniqueID \<times> chanTsMsg option) list"

text \<open>
  A buffered Go channel: the buffer, and the senders parked on it because the buffer was
  full when they sent. \<^verbatim>\<open>sendChan\<close> is made with capacity 16.
\<close>

record sendChannel =
  buf :: "proxyTable list"
  sendq :: "proxyTable list"

definition sendChanCap :: nat where
  "sendChanCap = 16"

record timetickSync =
  sourceID :: UniqueID
  proxyTimeTick :: proxyTable
  sendChan :: sendChannel
  ddlMinTs :: Timestamp
  ddlTsSet :: "Timestamp list"

subsection \<open>The channel\<close>

text \<open>
  \<^verbatim>\<open>ch <- x\<close>: the value goes into the buffer when there is room; otherwise the sender
  parks with its value until a receiver makes room.
\<close>

definition chan_send :: "sendChannel \<Rightarrow> proxyTable \<Rightarrow> sendChannel" where
  "chan_send c x =
     (if length (buf c) < sendChanCap then c\<lparr>buf := buf c @ [x]\<rparr>
      else c\<lparr>sendq := sendq c @ [x]\<rparr>)"

text \<open>
  \<^verbatim>\<open>x, ok := <-ch\<close> on an open channel: \<open>None\<close> when the buffer is empty (the receiver
  waits); otherwise the head of the buffer, and the first parked sender, if any, completes
  its send into the freed slot.
\<close>

definition chan_recv :: "sendChannel \<Rightarrow> (proxyTable \<times> sendChannel) option" where
  "chan_recv c =
     (case buf c of
        [] \<Rightarrow> None
      | x # b \<Rightarrow>
          (case sendq c of
             [] \<Rightarrow> Some (x, c\<lparr>buf := b\<rparr>)
           | y # q \<Rightarrow> Some (x, c\<lparr>buf := b @ [y], sendq := q\<rparr>)))"

subsection \<open>Reports\<close>

text \<open>
  \<^verbatim>\<open>newChanTsMsg\<close> reads \<^verbatim>\<open>in.Timestamps[idx]\<close> for each index of
  \<^verbatim>\<open>in.ChannelNames\<close>; its only caller has checked that the two lists have the same
  length, so the pairs are those of \<open>zip\<close>. A name that occurs twice keeps its last
  timestamp.
\<close>

definition newChanTsMsg :: "ChannelTimeTickMsg \<Rightarrow> 64 word \<Rightarrow> chanTsMsg" where
  "newChanTsMsg inp c =
     \<lparr>chanTs = fold (\<lambda>(name, ts) m. AList.update name ts m)
                 (zip (ChannelNames inp) (Timestamps inp)) [],
      defaultTs = DefaultTimestamp inp,
      cnt = c\<rparr>"

definition getTimetick :: "chanTsMsg \<Rightarrow> string \<Rightarrow> Timestamp" where
  "getTimetick c channelName =
     (case map_of (chanTs c) channelName of
        Some ts \<Rightarrow> ts
      | None \<Rightarrow> defaultTs c)"

subsection \<open>Construction\<close>

definition newTimeTickSync :: "UniqueID \<Rightarrow> timetickSync" where
  "newTimeTickSync sid =
     \<lparr>sourceID = sid,
      proxyTimeTick = [],
      sendChan = \<lparr>buf = [], sendq = []\<rparr>,
      ddlMinTs = MaxUint64,
      ddlTsSet = []\<rparr>"

subsection \<open>Draining a complete round\<close>

text \<open>
  \<^verbatim>\<open>sendToChannel\<close> returns at once on an empty table and when some proxy has a
  \<^verbatim>\<open>nil\<close> entry; otherwise it copies the table, sets every entry to \<^verbatim>\<open>nil\<close> and
  sends the copy.
\<close>

definition idleProxyList :: "proxyTable \<Rightarrow> UniqueID list" where
  "idleProxyList tbl = map fst (filter (\<lambda>(k, v). v = None) tbl)"

definition clearAll :: "proxyTable \<Rightarrow> proxyTable" where
  "clearAll tbl = map (\<lambda>(k, v). (k, None)) tbl"

definition sendToChannel :: "timetickSync \<Rightarrow> timetickSync" where
  "sendToChannel t =
     (if length (proxyTimeTick t) = 0 then t
      else if length (idleProxyList (proxyTimeTick t)) > 0 then t
      else
        let ptt = proxyTimeTick t
        in t\<lparr>proxyTimeTick := clearAll (proxyTimeTick t),
             sendChan := chan_send (sendChan t) ptt\<rparr>)"

subsection \<open>The DDL timestamps\<close>

definition addDdlTimeTick :: "Timestamp \<Rightarrow> string \<Rightarrow> timetickSync \<Rightarrow> timetickSync" where
  "addDdlTimeTick ts reason t =
     t\<lparr>ddlMinTs := (if ts < ddlMinTs t then ts else ddlMinTs t),
       ddlTsSet := List.insert ts (ddlTsSet t)\<rparr>"

definition scanMinTs :: "Timestamp list \<Rightarrow> Timestamp" where
  "scanMinTs tss = fold (\<lambda>tt minTs. if tt < minTs then tt else minTs) tss MaxUint64"

definition removeDdlTimeTick :: "Timestamp \<Rightarrow> string \<Rightarrow> timetickSync \<Rightarrow> timetickSync" where
  "removeDdlTimeTick ts reason t =
     (let s = removeAll ts (ddlTsSet t)
      in if length s = 0 then t\<lparr>ddlTsSet := s, ddlMinTs := MaxUint64\<rparr>
         else if ddlMinTs t = ts then t\<lparr>ddlTsSet := s, ddlMinTs := scanMinTs s\<rparr>
         else t\<lparr>ddlTsSet := s\<rparr>)"

definition getDdlMinTimeTick :: "timetickSync \<Rightarrow> Timestamp" where
  "getDdlMinTimeTick t = ddlMinTs t"

subsection \<open>Admitting a report\<close>

text \<open>
  \<^verbatim>\<open>updateTimeTick\<close> returns an \<^verbatim>\<open>error\<close> or \<^verbatim>\<open>nil\<close>. The result keeps the branch
  that was taken: four of the six branches return \<^verbatim>\<open>nil\<close>, and \<open>returned\<close> gives the
  Go return value of each.
\<close>

datatype error = InvalidTimeTickMsg | UnrecognizedProxy UniqueID

datatype tickBranch =
    EmptyMsg            \<comment> \<open>no channel names and a zero default timestamp: \<^verbatim>\<open>return nil\<close>\<close>
  | Invalid             \<comment> \<open>\<^verbatim>\<open>invalid TimeTickMsg\<close>\<close>
  | Unrecognized        \<comment> \<open>\<^verbatim>\<open>skip ChannelTimeTickMsg from un-recognized proxy node\<close>\<close>
  | DdlNotFinished      \<comment> \<open>logged \<^verbatim>\<open>ddl not finished\<close>, \<^verbatim>\<open>return nil\<close>\<close>
  | GoBack              \<comment> \<open>logged \<^verbatim>\<open>timestamp go back\<close>, \<^verbatim>\<open>return nil\<close>\<close>
  | Updated             \<comment> \<open>the entry was replaced and \<^verbatim>\<open>sendToChannel\<close> called\<close>

definition returned :: "tickBranch \<Rightarrow> ChannelTimeTickMsg \<Rightarrow> error option" where
  "returned b inp =
     (case b of
        Invalid \<Rightarrow> Some InvalidTimeTickMsg
      | Unrecognized \<Rightarrow> Some (UnrecognizedProxy (SourceID inp))
      | _ \<Rightarrow> None)"

definition updateTimeTick ::
  "ChannelTimeTickMsg \<Rightarrow> string \<Rightarrow> timetickSync \<Rightarrow> tickBranch \<times> timetickSync" where
  "updateTimeTick inp reason t =
     (if length (ChannelNames inp) = 0 \<and> DefaultTimestamp inp = 0 then (EmptyMsg, t)
      else if length (Timestamps inp) \<noteq> length (ChannelNames inp) then (Invalid, t)
      else
        case map_of (proxyTimeTick t) (SourceID inp) of
          None \<Rightarrow> (Unrecognized, t)
        | Some prev \<Rightarrow>
            if DefaultTimestamp inp > getDdlMinTimeTick t then (DdlNotFinished, t)
            else if SourceID inp = sourceID t \<and>
                    (case prev of None \<Rightarrow> False
                     | Some p \<Rightarrow> DefaultTimestamp inp \<le> defaultTs p)
              then (GoBack, t)
            else
              let msg = (case prev of
                           None \<Rightarrow> newChanTsMsg inp 1
                         | Some p \<Rightarrow> newChanTsMsg inp (cnt p + 1))
              in (Updated,
                  sendToChannel
                    (t\<lparr>proxyTimeTick :=
                         AList.update (SourceID inp) (Some msg) (proxyTimeTick t)\<rparr>)))"

subsection \<open>Membership\<close>

text \<open>A session is used only through its \<^verbatim>\<open>ServerID\<close>.\<close>

definition addProxy :: "UniqueID \<Rightarrow> timetickSync \<Rightarrow> timetickSync" where
  "addProxy serverID t =
     t\<lparr>proxyTimeTick := AList.update serverID None (proxyTimeTick t)\<rparr>"

definition delProxy :: "UniqueID \<Rightarrow> timetickSync \<Rightarrow> timetickSync" where
  "delProxy serverID t =
     (case map_of (proxyTimeTick t) serverID of
        Some _ \<Rightarrow> sendToChannel (t\<lparr>proxyTimeTick := AList.delete serverID (proxyTimeTick t)\<rparr>)
      | None \<Rightarrow> t)"

definition clearProxy :: "UniqueID list \<Rightarrow> timetickSync \<Rightarrow> timetickSync" where
  "clearProxy sess t =
     t\<lparr>proxyTimeTick := fold (\<lambda>s tbl. AList.update s None tbl) sess (proxyTimeTick t)\<rparr>"

subsection \<open>One iteration of the watch loop\<close>

text \<open>
  The iteration reads \<^verbatim>\<open>local := proxyTimetick[t.sourceID]\<close> and then
  \<^verbatim>\<open>local.chanTs\<close>; a missing key gives the zero value \<^verbatim>\<open>nil\<close>, and reading a field
  through \<^verbatim>\<open>nil\<close> panics. The same holds for \<^verbatim>\<open>tt.getTimetick\<close> on a \<^verbatim>\<open>nil\<close> entry.
\<close>

datatype fault = NilPointerDereference

fun minOver :: "string \<Rightarrow> Timestamp \<Rightarrow> proxyTable \<Rightarrow> fault + Timestamp" where
  "minOver chanName mints [] = Inr mints"
| "minOver chanName mints ((k, None) # rest) = Inl NilPointerDereference"
| "minOver chanName mints ((k, Some tt) # rest) =
     (let currTs = getTimetick tt chanName
      in minOver chanName (if currTs < mints then currTs else mints) rest)"

fun sendAll :: "proxyTable \<Rightarrow> (string \<times> Timestamp) list \<Rightarrow> fault + (string \<times> Timestamp) list" where
  "sendAll proxyTimetick [] = Inr []"
| "sendAll proxyTimetick ((chanName, ts) # rest) =
     (case minOver chanName ts proxyTimetick of
        Inl f \<Rightarrow> Inl f
      | Inr mints \<Rightarrow>
          (case sendAll proxyTimetick rest of
             Inl f \<Rightarrow> Inl f
           | Inr sent \<Rightarrow> Inr ((chanName, mints) # sent)))"

definition reduceRound :: "UniqueID \<Rightarrow> proxyTable \<Rightarrow> fault + (string \<times> Timestamp) list" where
  "reduceRound sid proxyTimetick =
     (case map_of proxyTimetick sid of
        None \<Rightarrow> Inl NilPointerDereference
      | Some None \<Rightarrow> Inl NilPointerDereference
      | Some (Some local) \<Rightarrow>
          if length (chanTs local) = 0 then Inr []
          else sendAll proxyTimetick (chanTs local))"

text \<open>
  One pass through the \<^verbatim>\<open>select\<close> of \<^verbatim>\<open>startWatch\<close> on an open channel and a live
  context: \<open>None\<close> when there is nothing to receive, otherwise the time ticks sent (or
  the panic) and the state after the receive.
\<close>

definition watchOnce ::
  "timetickSync \<Rightarrow> ((fault + (string \<times> Timestamp) list) \<times> timetickSync) option" where
  "watchOnce t =
     (case chan_recv (sendChan t) of
        None \<Rightarrow> None
      | Some (proxyTimetick, c) \<Rightarrow>
          Some (reduceRound (sourceID t) proxyTimetick, t\<lparr>sendChan := c\<rparr>))"

subsection \<open>Runs of the DDL operations\<close>

text \<open>
  The cached minimum agrees with the set: it is the least of the outstanding timestamps
  and \<open>MaxUint64\<close>, the value it is initialised with and reset to.
\<close>

definition ddlConsistent :: "timetickSync \<Rightarrow> bool" where
  "ddlConsistent t \<longleftrightarrow> ddlMinTs t = Min (insert MaxUint64 (set (ddlTsSet t)))"



subsection \<open>Rounds and snapshots\<close>

text \<open>A round is complete when the table is not empty and no entry is \<^verbatim>\<open>nil\<close>.\<close>

definition roundComplete :: "proxyTable \<Rightarrow> bool" where
  "roundComplete tbl \<longleftrightarrow> tbl \<noteq> [] \<and> list_all (\<lambda>(k, v). v \<noteq> None) tbl"

text \<open>The reports of a snapshot, and the least timestamp they give for a channel.\<close>

fun entries :: "proxyTable \<Rightarrow> chanTsMsg list" where
  "entries [] = []"
| "entries ((k, None) # rest) = entries rest"
| "entries ((k, Some tt) # rest) = tt # entries rest"

definition lowest :: "string \<Rightarrow> Timestamp \<Rightarrow> proxyTable \<Rightarrow> Timestamp" where
  "lowest chanName ts snap =
     Min (insert ts ((\<lambda>tt. getTimetick tt chanName) ` set (entries snap)))"

text \<open>A \<^verbatim>\<open>ChannelTimeTickMsg\<close> from its four fields, and a run of single-proxy rounds.\<close>

definition tick ::
  "UniqueID \<Rightarrow> string list \<Rightarrow> Timestamp list \<Rightarrow> Timestamp \<Rightarrow> ChannelTimeTickMsg" where
  "tick src names tss d =
     \<lparr>SourceID = src, ChannelNames = names, Timestamps = tss, DefaultTimestamp = d\<rparr>"

definition rounds :: "Timestamp list \<Rightarrow> timetickSync \<Rightarrow> timetickSync" where
  "rounds vs t =
     fold (\<lambda>v t. snd (updateTimeTick (tick 1 [''c0''] [v] v) ''tick'' t)) vs t"

subsection \<open>Runs of the whole component\<close>

text \<open>
  The calls that reach a \<^verbatim>\<open>timetickSync\<close>, and \<open>Watch\<close> for one iteration of the loop
  of \<^verbatim>\<open>startWatch\<close>. A world is the component together with the time ticks it has sent
  so far; a panic of the watch loop ends the process, and nothing happens after it. Each
  call is one step: the table lock and the DDL lock make the calls atomic with respect
  to the fields they touch. The table lock itself is not modelled, so the runs include
  calls that a parked sender would in fact hold back.
\<close>

datatype event =
    AddProxy UniqueID
  | DelProxy UniqueID
  | ClearProxy "UniqueID list"
  | UpdateTimeTick ChannelTimeTickMsg string
  | AddDdlTimeTick Timestamp string
  | RemoveDdlTimeTick Timestamp string
  | Watch

record world =
  sync :: timetickSync
  sent :: "(string \<times> Timestamp) list"
  panicked :: bool

definition boot :: "UniqueID \<Rightarrow> world" where
  "boot sid = \<lparr>sync = newTimeTickSync sid, sent = [], panicked = False\<rparr>"

fun act :: "event \<Rightarrow> world \<Rightarrow> world" where
  "act (AddProxy i) w = w\<lparr>sync := addProxy i (sync w)\<rparr>"
| "act (DelProxy i) w = w\<lparr>sync := delProxy i (sync w)\<rparr>"
| "act (ClearProxy is) w = w\<lparr>sync := clearProxy is (sync w)\<rparr>"
| "act (UpdateTimeTick inp reason) w = w\<lparr>sync := snd (updateTimeTick inp reason (sync w))\<rparr>"
| "act (AddDdlTimeTick ts reason) w = w\<lparr>sync := addDdlTimeTick ts reason (sync w)\<rparr>"
| "act (RemoveDdlTimeTick ts reason) w = w\<lparr>sync := removeDdlTimeTick ts reason (sync w)\<rparr>"
| "act Watch w =
     (case watchOnce (sync w) of
        None \<Rightarrow> w
      | Some (Inl f, t') \<Rightarrow> w\<lparr>sync := t', panicked := True\<rparr>
      | Some (Inr ticks, t') \<Rightarrow> w\<lparr>sync := t', sent := sent w @ ticks\<rparr>)"

definition step :: "event \<Rightarrow> world \<Rightarrow> world" where
  "step e w = (if panicked w then w else act e w)"

definition run :: "event list \<Rightarrow> world \<Rightarrow> world" where
  "run es w = fold step es w"





text \<open>
  The value a report gives a channel; the reports of each proxy, taken in the order of
  the run, never give the channel a smaller value than that proxy's report before (\<open>fl\<close>
  holds the last value of each proxy); no call of the run registers a proxy that is not
  in the table; and a state with no report in the table, nothing in the channel and no
  time tick sent. \<open>onChannel\<close> selects the time ticks sent on one channel.
\<close>

definition reportedFor :: "string \<Rightarrow> ChannelTimeTickMsg \<Rightarrow> Timestamp" where
  "reportedFor c inp = getTimetick (newChanTsMsg inp 0) c"

fun monotoneFrom :: "(UniqueID \<Rightarrow> Timestamp) \<Rightarrow> string \<Rightarrow> event list \<Rightarrow> bool" where
  "monotoneFrom fl c [] = True"
| "monotoneFrom fl c (UpdateTimeTick inp reason # es) =
     (fl (SourceID inp) \<le> reportedFor c inp
      \<and> monotoneFrom (fl(SourceID inp := reportedFor c inp)) c es)"
| "monotoneFrom fl c (e # es) = monotoneFrom fl c es"

fun noJoin :: "event list \<Rightarrow> world \<Rightarrow> bool" where
  "noJoin [] w = True"
| "noJoin (AddProxy i # es) w =
     (i \<in> fst ` set (proxyTimeTick (sync w)) \<and> noJoin es (step (AddProxy i) w))"
| "noJoin (ClearProxy is # es) w =
     (set is \<subseteq> fst ` set (proxyTimeTick (sync w)) \<and> noJoin es (step (ClearProxy is) w))"
| "noJoin (e # es) w = noJoin es (step e w)"

definition settled :: "world \<Rightarrow> bool" where
  "settled w \<longleftrightarrow>
     distinct (map fst (proxyTimeTick (sync w)))
   \<and> entries (proxyTimeTick (sync w)) = []
   \<and> buf (sendChan (sync w)) = [] \<and> sendq (sendChan (sync w)) = []
   \<and> sent w = []"

definition onChannel :: "string \<Rightarrow> (string \<times> Timestamp) list \<Rightarrow> Timestamp list" where
  "onChannel c ticks = map snd (filter (\<lambda>(ch, m). ch = c) ticks)"

subsection \<open>The invariant behind the order of the time ticks\<close>

text \<open>
  \<open>lo p\<close> is the value proxy \<open>p\<close> had in the snapshot drained last, \<open>fl p\<close> the value of
  its last report. Every report in the table lies between the two; the snapshots waiting
  in the channel are ordered, each one has a value up to \<open>lo p\<close> for every proxy \<open>p\<close> of
  the table, and the time ticks sent so far are sorted and below all of these.
\<close>

definition vals :: "string \<Rightarrow> proxyTable \<Rightarrow> Timestamp set" where
  "vals c S = (\<lambda>tt. getTimetick tt c) ` set (entries S)"

definition below :: "string \<Rightarrow> proxyTable \<Rightarrow> proxyTable \<Rightarrow> bool" where
  "below c S S' \<longleftrightarrow> (\<forall>v' \<in> vals c S'. \<exists>v \<in> vals c S. v \<le> v')"

definition pending :: "sendChannel \<Rightarrow> proxyTable list" where
  "pending ch = buf ch @ sendq ch"

definition chanOk :: "sendChannel \<Rightarrow> bool" where
  "chanOk ch \<longleftrightarrow> sendq ch = [] \<or> \<not> length (buf ch) < sendChanCap"

definition wfReport :: "chanTsMsg \<Rightarrow> bool" where
  "wfReport m \<longleftrightarrow> distinct (map fst (chanTs m))"

definition entryOk ::
  "string \<Rightarrow> (UniqueID \<Rightarrow> Timestamp) \<Rightarrow> (UniqueID \<Rightarrow> Timestamp) \<Rightarrow> UniqueID \<Rightarrow> chanTsMsg option \<Rightarrow> bool" where
  "entryOk c fl lo p v \<longleftrightarrow>
     lo p \<le> fl p
   \<and> (case v of
        None \<Rightarrow> True
      | Some m \<Rightarrow> lo p \<le> getTimetick m c \<and> getTimetick m c \<le> fl p \<and> wfReport m)"

definition tableOk ::
  "string \<Rightarrow> (UniqueID \<Rightarrow> Timestamp) \<Rightarrow> (UniqueID \<Rightarrow> Timestamp) \<Rightarrow> proxyTable \<Rightarrow> bool" where
  "tableOk c fl lo T \<longleftrightarrow>
     distinct (map fst T) \<and> (\<forall>p v. map_of T p = Some v \<longrightarrow> entryOk c fl lo p v)"

definition queueOk ::
  "string \<Rightarrow> (UniqueID \<Rightarrow> Timestamp) \<Rightarrow> UniqueID set \<Rightarrow> proxyTable list \<Rightarrow> bool" where
  "queueOk c lo K Q \<longleftrightarrow>
     sorted_wrt (below c) Q
   \<and> (\<forall>S \<in> set Q. (\<forall>m \<in> set (entries S). wfReport m)
                   \<and> (\<forall>p \<in> K. \<exists>v \<in> vals c S. v \<le> lo p))"

definition logOk ::
  "string \<Rightarrow> (UniqueID \<Rightarrow> Timestamp) \<Rightarrow> UniqueID set \<Rightarrow> proxyTable list \<Rightarrow> Timestamp list \<Rightarrow> bool" where
  "logOk c lo K Q L \<longleftrightarrow>
     sorted L
   \<and> (\<forall>x \<in> set L. (\<forall>S \<in> set Q. \<forall>v \<in> vals c S. x \<le> v) \<and> (\<forall>p \<in> K. x \<le> lo p))"

definition steady ::
  "string \<Rightarrow> (UniqueID \<Rightarrow> Timestamp) \<Rightarrow> (UniqueID \<Rightarrow> Timestamp) \<Rightarrow> timetickSync \<Rightarrow> Timestamp list \<Rightarrow> bool" where
  "steady c fl lo t L \<longleftrightarrow>
     chanOk (sendChan t)
   \<and> tableOk c fl lo (proxyTimeTick t)
   \<and> queueOk c lo (fst ` set (proxyTimeTick t)) (pending (sendChan t))
   \<and> logOk c lo (fst ` set (proxyTimeTick t)) (pending (sendChan t)) L"

definition drained :: "string \<Rightarrow> (UniqueID \<Rightarrow> Timestamp) \<Rightarrow> proxyTable \<Rightarrow> UniqueID \<Rightarrow> Timestamp" where
  "drained c lo T p = (case map_of T p of Some (Some m) \<Rightarrow> getTimetick m c | _ \<Rightarrow> lo p)"

definition floorOk :: "(UniqueID \<Rightarrow> Timestamp) \<Rightarrow> string \<Rightarrow> event \<Rightarrow> bool" where
  "floorOk fl c e \<longleftrightarrow>
     (case e of UpdateTimeTick inp reason \<Rightarrow> fl (SourceID inp) \<le> reportedFor c inp | _ \<Rightarrow> True)"

definition nextFloor :: "(UniqueID \<Rightarrow> Timestamp) \<Rightarrow> string \<Rightarrow> event \<Rightarrow> UniqueID \<Rightarrow> Timestamp" where
  "nextFloor fl c e =
     (case e of UpdateTimeTick inp reason \<Rightarrow> fl(SourceID inp := reportedFor c inp) | _ \<Rightarrow> fl)"

definition present :: "event \<Rightarrow> world \<Rightarrow> bool" where
  "present e w \<longleftrightarrow>
     (case e of
        AddProxy i \<Rightarrow> i \<in> fst ` set (proxyTimeTick (sync w))
      | ClearProxy is \<Rightarrow> set is \<subseteq> fst ` set (proxyTimeTick (sync w))
      | _ \<Rightarrow> True)"

section \<open>Properties\<close>

subsection \<open>The DDL timestamps and their cached minimum\<close>


lemma fold_min_Min:
  "fold (\<lambda>tt m. if tt < m then tt else m) xs (a::Timestamp) = Min (insert a (set xs))"
proof -
  have "(\<lambda>tt m::Timestamp. if tt < m then tt else m) = min"
    by (auto simp: fun_eq_iff min_def)
  moreover have "fold min xs a = Min (set (a # xs))"
    by (rule Min.set_eq_fold [symmetric])
  ultimately show ?thesis by simp
qed

lemma scanMinTs_Min: "scanMinTs xs = Min (insert MaxUint64 (set xs))"
  by (simp add: scanMinTs_def fold_min_Min)

lemma new_consistent: "ddlConsistent (newTimeTickSync sid)"
  by (simp add: ddlConsistent_def newTimeTickSync_def)

lemma addDdl_fields:
  "ddlTsSet (addDdlTimeTick ts r t) = List.insert ts (ddlTsSet t)"
  "ddlMinTs (addDdlTimeTick ts r t) = (if ts < ddlMinTs t then ts else ddlMinTs t)"
  by (simp_all add: addDdlTimeTick_def)

lemma removeDdl_fields:
  "ddlTsSet (removeDdlTimeTick ts r t) = removeAll ts (ddlTsSet t)"
  "ddlMinTs (removeDdlTimeTick ts r t) =
     (if removeAll ts (ddlTsSet t) = [] then MaxUint64
      else if ddlMinTs t = ts then scanMinTs (removeAll ts (ddlTsSet t))
      else ddlMinTs t)"
  by (simp_all add: removeDdlTimeTick_def Let_def)

lemma add_consistent:
  assumes "ddlConsistent t"
  shows "ddlConsistent (addDdlTimeTick ts r t)"
proof -
  let ?S = "insert MaxUint64 (set (ddlTsSet t))"
  define m where "m = Min ?S"
  have m: "ddlMinTs t = m" using assms by (simp add: ddlConsistent_def m_def)
  have "Min (insert ts ?S) = min ts m" unfolding m_def by (rule Min_insert) auto
  moreover have "(if ts < m then ts else m) = min ts m"
    by (auto simp: min_def)
  moreover have "insert MaxUint64 (set (List.insert ts (ddlTsSet t))) = insert ts ?S"
    by auto
  ultimately have "ddlMinTs (addDdlTimeTick ts r t)
      = Min (insert MaxUint64 (set (ddlTsSet (addDdlTimeTick ts r t))))"
    by (simp only: addDdl_fields m)
  then show ?thesis by (simp only: ddlConsistent_def)
qed










text \<open>
  C7, as stated, fails when \<open>ts\<close> is already outstanding: the set has each timestamp at
  most once, so \<open>add(ts)\<close> adds nothing and \<open>remove(ts)\<close> then removes the timestamp that
  was there before.
\<close>

theorem add_remove_roundtrip_counterexample:
  "removeDdlTimeTick 5 ''drop'' (addDdlTimeTick 5 ''create''
       (addDdlTimeTick 5 ''alter'' (newTimeTickSync 1)))
     \<noteq> addDdlTimeTick 5 ''alter'' (newTimeTickSync 1)"
  by (simp add: removeDdlTimeTick_def addDdlTimeTick_def newTimeTickSync_def MaxUint64_def)

text \<open>
  C7, amended: for every state whose cached minimum agrees with its set of timestamps
  and every timestamp \<open>ts\<close> that is not outstanding in it, \<open>add(ts, reason)\<close> followed by
  \<open>remove(ts, reason')\<close> restores the whole state, the set and the cached minimum
  included.
\<close>

theorem add_remove_roundtrip:
  assumes "ddlConsistent t" and "ts \<notin> set (ddlTsSet t)"
  shows "removeDdlTimeTick ts reason' (addDdlTimeTick ts reason t) = t"
proof -
  let ?a = "addDdlTimeTick ts reason t"
  let ?r = "removeDdlTimeTick ts reason' ?a"
  have rm: "removeAll ts (ddlTsSet ?a) = ddlTsSet t"
    using assms(2) by (simp add: addDdl_fields)
  have set_r: "ddlTsSet ?r = ddlTsSet t" by (simp only: removeDdl_fields rm)
  have m: "ddlMinTs t = scanMinTs (ddlTsSet t)"
    using assms(1) by (simp add: ddlConsistent_def scanMinTs_Min)
  have min_r: "ddlMinTs ?r = ddlMinTs t"
  proof (cases "ddlTsSet t = []")
    case True
    then have "ddlMinTs t = MaxUint64" using m by (simp add: scanMinTs_def)
    then show ?thesis using True by (simp only: removeDdl_fields rm) simp
  next
    case False
    show ?thesis
    proof (cases "ddlMinTs ?a = ts")
      case True
      then show ?thesis using False m by (simp only: removeDdl_fields rm) simp
    next
      case neq: False
      then have "ddlMinTs ?a = ddlMinTs t" by (auto simp: addDdl_fields split: if_splits)
      then show ?thesis using False neq by (simp only: removeDdl_fields rm) simp
    qed
  qed
  have "sourceID ?r = sourceID t" "proxyTimeTick ?r = proxyTimeTick t" "sendChan ?r = sendChan t"
    by (simp_all add: removeDdlTimeTick_def addDdlTimeTick_def Let_def)
  with set_r min_r show ?thesis by (intro timetickSync.equality) simp_all
qed

theorem add_remove_roundtrip_witness:
  "ddlConsistent (addDdlTimeTick 5 ''alter'' (newTimeTickSync 1))
   \<and> 3 \<notin> set (ddlTsSet (addDdlTimeTick 5 ''alter'' (newTimeTickSync 1)))
   \<and> removeDdlTimeTick 3 ''drop'' (addDdlTimeTick 3 ''create''
        (addDdlTimeTick 5 ''alter'' (newTimeTickSync 1)))
      = addDdlTimeTick 5 ''alter'' (newTimeTickSync 1)"
proof -
  have c: "ddlConsistent (addDdlTimeTick 5 ''alter'' (newTimeTickSync 1))"
    by (rule add_consistent [OF new_consistent])
  have n: "3 \<notin> set (ddlTsSet (addDdlTimeTick 5 ''alter'' (newTimeTickSync 1)))"
    by (simp add: addDdl_fields newTimeTickSync_def)
  show ?thesis using c n add_remove_roundtrip [OF c n] by simp
qed

subsection \<open>Evaluation on concrete inputs\<close>

lemmas model_defs = updateTimeTick_def sendToChannel_def idleProxyList_def clearAll_def
  chan_send_def chan_recv_def sendChanCap_def newChanTsMsg_def getTimetick_def
  newTimeTickSync_def addProxy_def delProxy_def clearProxy_def addDdlTimeTick_def
  removeDdlTimeTick_def getDdlMinTimeTick_def scanMinTs_def MaxUint64_def
  reduceRound_def watchOnce_def returned_def tick_def roundComplete_def Let_def

subsection \<open>The drain\<close>

lemma idle_empty_iff: "idleProxyList tbl = [] \<longleftrightarrow> list_all (\<lambda>(k, v). v \<noteq> None) tbl"
  by (induction tbl) (auto simp: idleProxyList_def)

lemma sendToChannel_complete:
  "roundComplete (proxyTimeTick t) \<Longrightarrow>
   sendToChannel t = t\<lparr>proxyTimeTick := clearAll (proxyTimeTick t),
                       sendChan := chan_send (sendChan t) (proxyTimeTick t)\<rparr>"
  by (simp add: sendToChannel_def roundComplete_def idle_empty_iff Let_def)

lemma sendToChannel_incomplete:
  "\<not> roundComplete (proxyTimeTick t) \<Longrightarrow> sendToChannel t = t"
  by (auto simp: sendToChannel_def roundComplete_def idle_empty_iff)

lemma chan_send_cases:
  "length (buf c) < sendChanCap \<Longrightarrow> chan_send c x = c\<lparr>buf := buf c @ [x]\<rparr>"
  "\<not> length (buf c) < sendChanCap \<Longrightarrow> chan_send c x = c\<lparr>sendq := sendq c @ [x]\<rparr>"
  by (simp_all add: chan_send_def)


lemma clearAll_null: "list_all (\<lambda>(k, v). v = None) (clearAll tbl)"
  by (induction tbl) (auto simp: clearAll_def)

lemma clearAll_keys: "map fst (clearAll tbl) = map fst tbl"
  by (induction tbl) (auto simp: clearAll_def)



subsection \<open>The capacity of the channel\<close>

lemma chan_recv_full:
  "buf c = x # b \<Longrightarrow> sendq c = [y] \<Longrightarrow> chan_recv c = Some (x, c\<lparr>buf := b @ [y], sendq := []\<rparr>)"
  by (simp add: chan_recv_def)

text \<open>
  C4, as stated, fails: the send in \<^verbatim>\<open>sendToChannel\<close> is the plain, blocking
  \<^verbatim>\<open>t.sendChan <- ptt\<close>, with no \<^verbatim>\<open>select\<close> and no \<^verbatim>\<open>default\<close>. After sixteen
  rounds that nobody received, the seventeenth snapshot is not dropped: it stays with the
  sender parked on the channel and is the last element of the buffer after the next
  receive.
\<close>

theorem queue_overflow_drop_counterexample:
  "length (buf (sendChan (rounds [1,2,3,4,5,6,7,8,9,10,11,12,13,14,15,16]
       (addProxy 1 (newTimeTickSync 1))))) = 16
   \<and> sendq (sendChan (rounds [1,2,3,4,5,6,7,8,9,10,11,12,13,14,15,16,17]
       (addProxy 1 (newTimeTickSync 1))))
      = [[(1, Some (newChanTsMsg (tick 1 [''c0''] [17] 17) 1))]]
   \<and> (case watchOnce (rounds [1,2,3,4,5,6,7,8,9,10,11,12,13,14,15,16,17]
          (addProxy 1 (newTimeTickSync 1))) of
        None \<Rightarrow> False
      | Some (r, t') \<Rightarrow>
          length (buf (sendChan t')) = 16
        \<and> last (buf (sendChan t')) = [(1, Some (newChanTsMsg (tick 1 [''c0''] [17] 17) 1))])"
  by (simp add: rounds_def model_defs)

text \<open>
  C4, amended: \<^verbatim>\<open>sendChan\<close> has capacity 16 and the send blocks. A drain of a complete
  table sets every entry to \<^verbatim>\<open>nil\<close>; with fewer than 16 snapshots in the buffer the
  snapshot is appended to it; with 16 the buffer is unchanged and the snapshot waits with
  the parked sender, and the next receive of the watch loop moves it to the end of the
  buffer. No snapshot is dropped.
\<close>

theorem full_queue_parks_sender:
  assumes "roundComplete (proxyTimeTick t)"
  shows "sendChanCap = 16
    \<and> list_all (\<lambda>(k, v). v = None) (proxyTimeTick (sendToChannel t))
    \<and> (length (buf (sendChan t)) < sendChanCap \<longrightarrow>
         buf (sendChan (sendToChannel t)) = buf (sendChan t) @ [proxyTimeTick t]
       \<and> sendq (sendChan (sendToChannel t)) = sendq (sendChan t))
    \<and> (length (buf (sendChan t)) = sendChanCap \<and> sendq (sendChan t) = [] \<longrightarrow>
         buf (sendChan (sendToChannel t)) = buf (sendChan t)
       \<and> sendq (sendChan (sendToChannel t)) = [proxyTimeTick t]
       \<and> (\<exists>r t'. watchOnce (sendToChannel t) = Some (r, t')
             \<and> buf (sendChan t') = tl (buf (sendChan t)) @ [proxyTimeTick t]
             \<and> sendq (sendChan t') = []))"
proof -
  note d = sendToChannel_complete [OF assms]
  have 1: "list_all (\<lambda>(k, v). v = None) (proxyTimeTick (sendToChannel t))"
    by (simp add: d clearAll_null)
  have 2: "buf (sendChan (sendToChannel t)) = buf (sendChan t) @ [proxyTimeTick t]
       \<and> sendq (sendChan (sendToChannel t)) = sendq (sendChan t)"
    if "length (buf (sendChan t)) < sendChanCap"
    using that by (simp add: d chan_send_def)
  have 3: "buf (sendChan (sendToChannel t)) = buf (sendChan t)
       \<and> sendq (sendChan (sendToChannel t)) = [proxyTimeTick t]
       \<and> (\<exists>r t'. watchOnce (sendToChannel t) = Some (r, t')
             \<and> buf (sendChan t') = tl (buf (sendChan t)) @ [proxyTimeTick t]
             \<and> sendq (sendChan t') = [])"
    if f: "length (buf (sendChan t)) = sendChanCap" and e: "sendq (sendChan t) = []"
  proof -
    have b: "buf (sendChan (sendToChannel t)) = buf (sendChan t)"
      and q: "sendq (sendChan (sendToChannel t)) = [proxyTimeTick t]"
      using f e by (simp_all add: d chan_send_def)
    from f obtain x b' where xb: "buf (sendChan t) = x # b'"
      by (cases "buf (sendChan t)") (auto simp: sendChanCap_def)
    have "chan_recv (sendChan (sendToChannel t)) =
        Some (x, (sendChan (sendToChannel t))\<lparr>buf := b' @ [proxyTimeTick t], sendq := []\<rparr>)"
      by (rule chan_recv_full) (simp_all add: b q xb)
    then have "\<exists>r t'. watchOnce (sendToChannel t) = Some (r, t')
             \<and> buf (sendChan t') = tl (buf (sendChan t)) @ [proxyTimeTick t]
             \<and> sendq (sendChan t') = []"
      by (simp add: watchOnce_def xb)
    with b q show ?thesis by simp
  qed
  show ?thesis using 1 2 3 by (simp add: sendChanCap_def)
qed

theorem full_queue_parks_sender_witness:
  "roundComplete (proxyTimeTick ((rounds [1,2,3,4,5,6,7,8,9,10,11,12,13,14,15,16]
       (addProxy 1 (newTimeTickSync 1)))\<lparr>proxyTimeTick :=
          [(1, Some (newChanTsMsg (tick 1 [''c0''] [17] 17) 1))]\<rparr>))
   \<and> sendq (sendChan (sendToChannel ((rounds [1,2,3,4,5,6,7,8,9,10,11,12,13,14,15,16]
       (addProxy 1 (newTimeTickSync 1)))\<lparr>proxyTimeTick :=
          [(1, Some (newChanTsMsg (tick 1 [''c0''] [17] 17) 1))]\<rparr>)))
      = [[(1, Some (newChanTsMsg (tick 1 [''c0''] [17] 17) 1))]]"
proof -
  let ?t = "(rounds [1,2,3,4,5,6,7,8,9,10,11,12,13,14,15,16]
       (addProxy 1 (newTimeTickSync 1)))\<lparr>proxyTimeTick :=
          [(1, Some (newChanTsMsg (tick 1 [''c0''] [17] 17) 1))]\<rparr>"
  have c: "roundComplete (proxyTimeTick ?t)" by (simp add: roundComplete_def)
  have f: "length (buf (sendChan ?t)) = sendChanCap \<and> sendq (sendChan ?t) = []"
    by (simp add: rounds_def model_defs)
  show ?thesis using full_queue_parks_sender [OF c] c f by simp
qed

subsection \<open>Reports that are refused for their shape\<close>

text \<open>
  C5, as stated, fails: a report with no channel names and a zero default timestamp makes
  \<^verbatim>\<open>updateTimeTick\<close> return \<^verbatim>\<open>nil\<close>, not an error, and this test comes before the
  comparison of the two lengths, so it also wins when the list of timestamps is not
  empty.
\<close>

theorem malformed_counterexample:
  "returned (fst (updateTimeTick (tick 1 [] [] 0) ''tick'' (addProxy 1 (newTimeTickSync 1))))
      (tick 1 [] [] 0) = None
   \<and> returned (fst (updateTimeTick (tick 1 [] [5] 0) ''tick'' (addProxy 1 (newTimeTickSync 1))))
      (tick 1 [] [5] 0) = None"
  by (simp add: model_defs)

text \<open>
  C5, amended: a report with no channel names and a zero default timestamp is ignored,
  whatever its list of timestamps: \<^verbatim>\<open>updateTimeTick\<close> returns \<^verbatim>\<open>nil\<close> and changes
  nothing. Every other report whose two lists differ in length gets the error
  \<^verbatim>\<open>invalid TimeTickMsg\<close>, and the state is unchanged.
\<close>

theorem malformed:
  "(length (ChannelNames inp) = 0 \<and> DefaultTimestamp inp = 0 \<longrightarrow>
      updateTimeTick inp reason t = (EmptyMsg, t) \<and> returned EmptyMsg inp = None)
   \<and> (\<not> (length (ChannelNames inp) = 0 \<and> DefaultTimestamp inp = 0)
      \<and> length (ChannelNames inp) \<noteq> length (Timestamps inp) \<longrightarrow>
      updateTimeTick inp reason t = (Invalid, t) \<and> returned Invalid inp = Some InvalidTimeTickMsg)"
  by (auto simp: updateTimeTick_def returned_def)

theorem malformed_witness:
  "updateTimeTick (tick 1 [] [5] 0) ''tick'' (addProxy 1 (newTimeTickSync 1))
     = (EmptyMsg, addProxy 1 (newTimeTickSync 1))
   \<and> updateTimeTick (tick 1 [''c0''] [] 7) ''tick'' (addProxy 1 (newTimeTickSync 1))
     = (Invalid, addProxy 1 (newTimeTickSync 1))
   \<and> returned Invalid (tick 1 [''c0''] [] 7) = Some InvalidTimeTickMsg"
  using malformed [of "tick 1 [] [5] 0" "''tick''" "addProxy 1 (newTimeTickSync 1)"]
    malformed [of "tick 1 [''c0''] [] 7" "''tick''" "addProxy 1 (newTimeTickSync 1)"]
  by (simp add: tick_def)

subsection \<open>Registering a proxy\<close>

lemma update_absent: "map_of al k = None \<Longrightarrow> AList.update k v al = al @ [(k, v)]"
  by (induction al) (auto split: if_splits)

text \<open>
  C8, as stated, fails when the proxy is present with a report: \<^verbatim>\<open>addProxy\<close> assigns
  \<^verbatim>\<open>nil\<close> without looking, and the report is lost.
\<close>

theorem addProxy_noop_counterexample:
  "proxyTimeTick (addProxy 1 (snd (updateTimeTick (tick 1 [''c0''] [100] 100) ''tick''
        (addProxy 2 (addProxy 1 (newTimeTickSync 1))))))
   \<noteq> proxyTimeTick (snd (updateTimeTick (tick 1 [''c0''] [100] 100) ''tick''
        (addProxy 2 (addProxy 1 (newTimeTickSync 1)))))"
  by (simp add: model_defs)

text \<open>
  C8, amended: \<^verbatim>\<open>addProxy(id)\<close> sets the entry of \<open>id\<close> to \<^verbatim>\<open>nil\<close> whatever it was and
  leaves the other entries alone: an absent \<open>id\<close> is inserted with \<^verbatim>\<open>nil\<close>, a present
  \<open>id\<close> whose entry is \<^verbatim>\<open>nil\<close> leaves the state identical, and a present \<open>id\<close> that
  holds a report loses it.
\<close>

theorem addProxy_resets:
  "(map_of (proxyTimeTick t) serverID = None \<longrightarrow>
      proxyTimeTick (addProxy serverID t) = proxyTimeTick t @ [(serverID, None)])
   \<and> (map_of (proxyTimeTick t) serverID = Some None \<longrightarrow> addProxy serverID t = t)
   \<and> map_of (proxyTimeTick (addProxy serverID t)) = (map_of (proxyTimeTick t))(serverID \<mapsto> None)"
  by (simp add: addProxy_def update_absent update_conv' AList.update_triv)

theorem addProxy_resets_witness:
  "map_of (proxyTimeTick (newTimeTickSync 1)) 7 = None
   \<and> proxyTimeTick (addProxy 7 (newTimeTickSync 1)) = [(7, None)]
   \<and> map_of (proxyTimeTick (addProxy 7 (newTimeTickSync 1))) 7 = Some None
   \<and> addProxy 7 (addProxy 7 (newTimeTickSync 1)) = addProxy 7 (newTimeTickSync 1)"
proof -
  have a: "map_of (proxyTimeTick (newTimeTickSync 1)) 7 = None"
    by (simp add: newTimeTickSync_def)
  have b: "proxyTimeTick (addProxy 7 (newTimeTickSync 1)) = [(7, None)]"
    using addProxy_resets [of "newTimeTickSync 1" 7] a by (simp add: newTimeTickSync_def)
  have c: "map_of (proxyTimeTick (addProxy 7 (newTimeTickSync 1))) 7 = Some None"
    by (simp add: b)
  show ?thesis using a b c addProxy_resets [of "addProxy 7 (newTimeTickSync 1)" 7] by simp
qed

subsection \<open>The coordinator's own report across a drain\<close>

lemma map_of_clearAll: "map_of (clearAll tbl) k = map_option (\<lambda>_. None) (map_of tbl k)"
  by (induction tbl) (auto simp: clearAll_def)



subsection \<open>The reduction of a snapshot\<close>

lemma minOver_lowest:
  "list_all (\<lambda>(k, v). v \<noteq> None) snap \<Longrightarrow> minOver c m snap = Inr (lowest c m snap)"
proof (induction c m snap rule: minOver.induct)
  case (1 chanName mints)
  then show ?case by (simp add: lowest_def)
next
  case (2 chanName mints k rest)
  then show ?case by simp
next
  case (3 chanName mints k tt rest)
  let ?v = "getTimetick tt chanName"
  let ?R = "(\<lambda>tt. getTimetick tt chanName) ` set (entries rest)"
  have m: "(if ?v < mints then ?v else mints) = min ?v mints" by (auto simp: min_def)
  have "Min (insert (min ?v mints) ?R) = Min (insert mints (insert ?v ?R))"
  proof (cases "?R = {}")
    case True
    then show ?thesis by (simp add: min.commute)
  next
    case False
    then show ?thesis by (simp add: min.assoc min.left_commute min.commute)
  qed
  then have "lowest chanName (min ?v mints) rest = lowest chanName mints ((k, Some tt) # rest)"
    by (simp add: lowest_def)
  then show ?case using 3 by (simp add: m Let_def)
qed

lemma sendAll_lowest:
  "list_all (\<lambda>(k, v). v \<noteq> None) snap \<Longrightarrow>
   sendAll snap cs = Inr (map (\<lambda>(c, ts). (c, lowest c ts snap)) cs)"
  by (induction cs) (auto simp: minOver_lowest)

lemma complete_lookup:
  "list_all (\<lambda>(k, v). v \<noteq> None) snap \<Longrightarrow> map_of snap k = Some v \<Longrightarrow> v \<noteq> None"
  by (induction snap) (auto split: if_splits)

text \<open>
  C10: the watch loop looks the coordinator up in the snapshot and reads its channel
  map without testing the result. With a non-null entry for the coordinator the lookup
  and the read succeed; with no entry the read is through \<^verbatim>\<open>nil\<close> and panics. A drain
  of a table in which the coordinator is registered sends a snapshot with a non-null
  entry for it, and the whole reduction of that snapshot succeeds.
\<close>

theorem coordinator_entry_dereference:
  "(map_of snap sid = Some (Some local) \<longrightarrow>
      reduceRound sid snap =
        (if length (chanTs local) = 0 then Inr [] else sendAll snap (chanTs local)))
   \<and> (map_of snap sid = None \<longrightarrow> reduceRound sid snap = Inl NilPointerDereference)
   \<and> (roundComplete (proxyTimeTick t) \<and> map_of (proxyTimeTick t) (sourceID t) \<noteq> None \<longrightarrow>
        sendChan (sendToChannel t) = chan_send (sendChan t) (proxyTimeTick t)
      \<and> (\<exists>local. map_of (proxyTimeTick t) (sourceID t) = Some (Some local))
      \<and> (\<exists>ticks. reduceRound (sourceID t) (proxyTimeTick t) = Inr ticks))"
proof -
  have "\<exists>local. map_of (proxyTimeTick t) (sourceID t) = Some (Some local)"
    and "\<exists>ticks. reduceRound (sourceID t) (proxyTimeTick t) = Inr ticks"
    if c: "roundComplete (proxyTimeTick t)" and r: "map_of (proxyTimeTick t) (sourceID t) \<noteq> None"
  proof -
    have nn: "list_all (\<lambda>(k, v). v \<noteq> None) (proxyTimeTick t)"
      using c by (simp add: roundComplete_def)
    from r obtain v where v: "map_of (proxyTimeTick t) (sourceID t) = Some v" by blast
    with complete_lookup [OF nn v] obtain local where
      l: "map_of (proxyTimeTick t) (sourceID t) = Some (Some local)" by auto
    then show "\<exists>local. map_of (proxyTimeTick t) (sourceID t) = Some (Some local)" by blast
    show "\<exists>ticks. reduceRound (sourceID t) (proxyTimeTick t) = Inr ticks"
      by (simp add: reduceRound_def l sendAll_lowest [OF nn])
  qed
  then show ?thesis
    by (auto simp: reduceRound_def sendToChannel_complete)
qed

theorem coordinator_entry_dereference_witness:
  "reduceRound 1 [(1, Some (newChanTsMsg (tick 1 [''c0''] [200] 200) 1)),
                  (2, Some (newChanTsMsg (tick 2 [''c0''] [150] 150) 1))] = Inr [(''c0'', 150)]
   \<and> reduceRound 1 [(2, Some (newChanTsMsg (tick 2 [''c0''] [150] 150) 1))]
       = Inl NilPointerDereference"
proof -
  let ?l = "newChanTsMsg (tick 1 [''c0''] [200] 200) 1"
  let ?s = "[(1, Some ?l), (2, Some (newChanTsMsg (tick 2 [''c0''] [150] 150) 1))]"
  let ?s2 = "[(2::UniqueID, Some (newChanTsMsg (tick 2 [''c0''] [150] 150) 1))]"
  have a: "map_of ?s 1 = Some (Some ?l)" by simp
  have b: "map_of ?s2 1 = None" by simp
  have "reduceRound 1 ?s = (if length (chanTs ?l) = 0 then Inr [] else sendAll ?s (chanTs ?l))"
    using coordinator_entry_dereference [of ?s 1 ?l] a by blast
  moreover have "reduceRound 1 ?s2 = Inl NilPointerDereference"
    using coordinator_entry_dereference [of ?s2 1] b by blast
  ultimately show ?thesis by (simp add: newChanTsMsg_def tick_def getTimetick_def)
qed

subsection \<open>Time ticks and outstanding DDL timestamps\<close>




lemma sendToChannel_ddl [simp]:
  "ddlTsSet (sendToChannel t) = ddlTsSet t" "ddlMinTs (sendToChannel t) = ddlMinTs t"
  by (simp_all add: sendToChannel_def Let_def)





lemma minOver_le:
  "minOver c m0 snap = Inr m \<Longrightarrow> tt \<in> set (entries snap) \<Longrightarrow> m \<le> getTimetick tt c"
proof (induction c m0 snap rule: minOver.induct)
  case (1 chanName mints)
  then show ?case by simp
next
  case (2 chanName mints k rest)
  then show ?case by simp
next
  case (3 chanName mints k tt' rest)
  have start: "minOver c m0 snap = Inr m \<Longrightarrow> m \<le> m0" for c m0 snap m
    by (induction c m0 snap rule: minOver.induct) (auto simp: Let_def split: if_splits)
  show ?case
  proof (cases "tt = tt'")
    case True
    from 3(2) have "m \<le> (if getTimetick tt' chanName < mints then getTimetick tt' chanName else mints)"
      by (intro start) (simp add: Let_def)
    then show ?thesis using True by (auto split: if_splits)
  next
    case False
    then show ?thesis using 3 by (simp add: Let_def)
  qed
qed

lemma sendAll_member:
  "sendAll snap cs = Inr ticks \<Longrightarrow> (c, m) \<in> set ticks \<Longrightarrow> \<exists>m0. minOver c m0 snap = Inr m"
proof (induction cs arbitrary: ticks)
  case Nil
  then show ?case by simp
next
  case (Cons a cs)
  obtain c0 ts0 where a: "a = (c0, ts0)" by (cases a)
  from Cons.prems(1) obtain m1 rest where
    m1: "minOver c0 ts0 snap = Inr m1" and rest: "sendAll snap cs = Inr rest"
    and t: "ticks = (c0, m1) # rest"
    by (auto simp: a split: sum.splits)
  show ?case
  proof (cases "(c, m) = (c0, m1)")
    case True
    then show ?thesis using m1 by blast
  next
    case False
    then have "(c, m) \<in> set rest" using Cons.prems(2) t by auto
    then show ?thesis by (rule Cons.IH [OF rest])
  qed
qed

lemma reduceRound_le:
  assumes "reduceRound sid snap = Inr ticks" "(c, m) \<in> set ticks" "tt \<in> set (entries snap)"
  shows "m \<le> getTimetick tt c"
proof -
  from assms(1,2) obtain cs where "sendAll snap cs = Inr ticks"
    by (auto simp: reduceRound_def split: option.splits if_splits)
  with assms(2) obtain m0 where "minOver c m0 snap = Inr m" by (blast dest: sendAll_member)
  then show ?thesis using assms(3) by (rule minOver_le)
qed






















subsection \<open>Time ticks of successive snapshots\<close>

lemma entries_iff: "tt \<in> set (entries S) \<longleftrightarrow> (\<exists>p. (p, Some tt) \<in> set S)"
proof (induction S)
  case Nil
  then show ?case by simp
next
  case (Cons a S)
  obtain k v where a: "a = (k, v)" by (cases a)
  show ?case using Cons by (cases v) (auto simp: a)
qed

lemma sendAll_member_pair:
  "sendAll snap cs = Inr ticks \<Longrightarrow> (c, m) \<in> set ticks \<Longrightarrow>
   \<exists>ts0. (c, ts0) \<in> set cs \<and> minOver c ts0 snap = Inr m"
proof (induction cs arbitrary: ticks)
  case Nil
  then show ?case by simp
next
  case (Cons a cs)
  obtain c0 ts0 where a: "a = (c0, ts0)" by (cases a)
  from Cons.prems(1) obtain m1 rest where
    m1: "minOver c0 ts0 snap = Inr m1" and rest: "sendAll snap cs = Inr rest"
    and t: "ticks = (c0, m1) # rest"
    by (auto simp: a split: sum.splits)
  show ?case
  proof (cases "(c, m) = (c0, m1)")
    case True
    then show ?thesis using m1 a by auto
  next
    case False
    then have "(c, m) \<in> set rest" using Cons.prems(2) t by auto
    from Cons.IH [OF rest this] show ?thesis by auto
  qed
qed

lemma minOver_attained:
  "minOver c m0 snap = Inr m \<Longrightarrow> m = m0 \<or> (\<exists>tt \<in> set (entries snap). m = getTimetick tt c)"
  by (induction c m0 snap rule: minOver.induct) (auto simp: Let_def split: if_splits)

lemma reduceRound_attained:
  assumes "reduceRound sid snap = Inr ticks" "(c, m) \<in> set ticks"
    and "\<forall>tt \<in> set (entries snap). distinct (map fst (chanTs tt))"
  shows "\<exists>tt \<in> set (entries snap). m = getTimetick tt c"
proof -
  from assms(1,2) obtain local where l: "map_of snap sid = Some (Some local)"
    and s: "sendAll snap (chanTs local) = Inr ticks"
    by (auto simp: reduceRound_def split: option.splits if_splits)
  from l have le: "local \<in> set (entries snap)" by (auto simp: entries_iff dest: map_of_SomeD)
  from sendAll_member_pair [OF s assms(2)] obtain ts0 where
    ts0: "(c, ts0) \<in> set (chanTs local)" and m: "minOver c ts0 snap = Inr m" by blast
  have "distinct (map fst (chanTs local))" using assms(3) le by blast
  with ts0 have "map_of (chanTs local) c = Some ts0" by simp
  then have "getTimetick local c = ts0" by (simp add: getTimetick_def)
  with minOver_attained [OF m] le show ?thesis by auto
qed

lemma pending_send:
  "chanOk ch \<Longrightarrow> pending (chan_send ch x) = pending ch @ [x] \<and> chanOk (chan_send ch x)"
  by (auto simp: chanOk_def pending_def chan_send_def)

lemma pending_recv:
  "chanOk ch \<Longrightarrow> chan_recv ch = Some (x, ch') \<Longrightarrow> pending ch = x # pending ch' \<and> chanOk ch'"
  by (auto simp: chanOk_def pending_def chan_recv_def split: list.splits)

lemma keys_update_present:
  "p \<in> fst ` set T \<Longrightarrow> fst ` set (AList.update p v T) = fst ` set T"
  by (metis AList.update_keys list.set_map)

lemma keys_delete: "fst ` set (AList.delete p T) \<subseteq> fst ` set T"
  by (metis AList.delete_keys list.set_map set_removeAll Diff_subset)

lemma keys_clearAll: "fst ` set (clearAll T) = fst ` set T"
  by (metis clearAll_keys list.set_map)

lemma map_of_keys: "map_of T p = Some v \<Longrightarrow> p \<in> fst ` set T"
  by (metis map_of_eq_None_iff option.distinct(1))

lemma entryOk_raise:
  "entryOk c fl lo q x \<Longrightarrow> fl p \<le> v \<Longrightarrow> entryOk c (fl(p := v)) lo q x"
  by (cases x) (auto simp: entryOk_def intro: order_trans)

lemma tableOk_raise:
  "tableOk c fl lo T \<Longrightarrow> fl p \<le> v \<Longrightarrow> tableOk c (fl(p := v)) lo T"
  unfolding tableOk_def by (blast intro: entryOk_raise)

lemma tableOk_lookup: "tableOk c fl lo T \<Longrightarrow> map_of T p = Some v \<Longrightarrow> entryOk c fl lo p v"
  unfolding tableOk_def by blast

lemma tableOk_update:
  assumes "tableOk c fl lo T" "entryOk c fl lo p v"
  shows "tableOk c fl lo (AList.update p v T)"
  using assms unfolding tableOk_def
  by (auto simp: update_conv' distinct_update split: if_splits)

lemma tableOk_delete: "tableOk c fl lo T \<Longrightarrow> tableOk c fl lo (AList.delete p T)"
  unfolding tableOk_def by (auto simp: delete_conv' distinct_delete split: if_splits)

lemma entryOk_None: "entryOk c fl lo p v \<Longrightarrow> entryOk c fl lo p None"
  by (simp add: entryOk_def)

lemma queueOk_mono: "queueOk c lo K Q \<Longrightarrow> K' \<subseteq> K \<Longrightarrow> queueOk c lo K' Q"
  unfolding queueOk_def by blast

lemma logOk_mono: "logOk c lo K Q L \<Longrightarrow> K' \<subseteq> K \<Longrightarrow> logOk c lo K' Q L"
  unfolding logOk_def by blast

lemma entries_lookup:
  "distinct (map fst T) \<Longrightarrow> m \<in> set (entries T) \<Longrightarrow> \<exists>p. map_of T p = Some (Some m)"
  by (auto simp: entries_iff)

lemma lookup_vals:
  assumes "map_of T p = Some (Some m)"
  shows "getTimetick m c \<in> vals c T"
proof -
  from assms have "(p, Some m) \<in> set T" by (rule map_of_SomeD)
  then have "m \<in> set (entries T)" by (auto simp: entries_iff)
  then show ?thesis by (simp add: vals_def)
qed

lemma complete_key:
  assumes "roundComplete T" "p \<in> fst ` set T"
  shows "\<exists>m. map_of T p = Some (Some m)"
proof -
  from assms(2) obtain v where v: "map_of T p = Some v"
    by (metis map_of_eq_None_iff not_Some_eq)
  from assms(1) have "list_all (\<lambda>(k, v). v \<noteq> None) T" by (simp add: roundComplete_def)
  from complete_lookup [OF this v] v show ?thesis by auto
qed

lemma drained_ge:
  assumes "tableOk c fl lo T" "p \<in> fst ` set T"
  shows "lo p \<le> drained c lo T p" and "drained c lo T p \<le> fl p"
proof -
  from assms(2) obtain v where v: "map_of T p = Some v"
    by (metis map_of_eq_None_iff not_Some_eq)
  from tableOk_lookup [OF assms(1) v]
  show "lo p \<le> drained c lo T p" and "drained c lo T p \<le> fl p"
    by (cases v; simp add: drained_def v entryOk_def)+
qed

lemma tableOk_clearAll:
  assumes "tableOk c fl lo T"
  shows "tableOk c fl (drained c lo T) (clearAll T)"
proof -
  have "entryOk c fl (drained c lo T) p v" if "map_of (clearAll T) p = Some v" for p v
  proof -
    from that have v: "v = None" and k: "p \<in> fst ` set T"
      by (auto simp: map_of_clearAll dest: map_of_keys)
    show ?thesis using drained_ge(2) [OF assms k] by (simp add: v entryOk_def)
  qed
  moreover have "distinct (map fst (clearAll T))"
    using assms by (simp add: clearAll_keys tableOk_def)
  ultimately show ?thesis unfolding tableOk_def by blast
qed

lemma table_vals_ge:
  assumes "tableOk c fl lo T" "v \<in> vals c T"
  shows "\<exists>p \<in> fst ` set T. lo p \<le> v \<and> (\<forall>m \<in> set (entries T). wfReport m)"
proof -
  have d: "distinct (map fst T)" using assms(1) by (simp add: tableOk_def)
  have wf: "wfReport m" if "m \<in> set (entries T)" for m
  proof -
    from entries_lookup [OF d that] obtain p where "map_of T p = Some (Some m)" by blast
    from tableOk_lookup [OF assms(1) this] show ?thesis by (simp add: entryOk_def)
  qed
  from assms(2) obtain m where m: "m \<in> set (entries T)" and v: "v = getTimetick m c"
    by (auto simp: vals_def)
  from entries_lookup [OF d m] obtain p where p: "map_of T p = Some (Some m)" by blast
  from tableOk_lookup [OF assms(1) p] have "lo p \<le> v" by (simp add: entryOk_def v)
  with map_of_keys [OF p] wf show ?thesis by blast
qed

lemma queueOk_drain:
  assumes "roundComplete T" "tableOk c fl lo T" "queueOk c lo (fst ` set T) Q"
  shows "queueOk c (drained c lo T) (fst ` set T) (Q @ [T])"
proof -
  let ?K = "fst ` set T" and ?lo' = "drained c lo T"
  have old: "\<exists>v \<in> vals c S. v \<le> ?lo' p" if "S \<in> set Q" "p \<in> ?K" for S p
  proof -
    from assms(3) that obtain v where "v \<in> vals c S" "v \<le> lo p"
      unfolding queueOk_def by blast
    with drained_ge(1) [OF assms(2) that(2)] show ?thesis by (meson order_trans)
  qed
  have new: "\<exists>v \<in> vals c T. v \<le> ?lo' p" if "p \<in> ?K" for p
  proof -
    from complete_key [OF assms(1) that] obtain m where m: "map_of T p = Some (Some m)" by blast
    then have "?lo' p = getTimetick m c" by (simp add: drained_def)
    with lookup_vals [OF m, of c] show ?thesis by auto
  qed
  have bel: "below c S T" if "S \<in> set Q" for S
    unfolding below_def
  proof
    fix v' assume "v' \<in> vals c T"
    from table_vals_ge [OF assms(2) this] obtain p where p: "p \<in> ?K" and le: "lo p \<le> v'" by blast
    from assms(3) that p obtain v where "v \<in> vals c S" "v \<le> lo p"
      unfolding queueOk_def by blast
    with le show "\<exists>v \<in> vals c S. v \<le> v'" by (meson order_trans)
  qed
  have wfT: "\<forall>m \<in> set (entries T). wfReport m"
  proof (cases "vals c T = {}")
    case True
    then show ?thesis by (simp add: vals_def)
  next
    case False
    then obtain v where "v \<in> vals c T" by blast
    from table_vals_ge [OF assms(2) this] show ?thesis by blast
  qed
  have wfQ: "\<forall>S \<in> set Q. \<forall>m \<in> set (entries S). wfReport m"
    using assms(3) unfolding queueOk_def by blast
  have "sorted_wrt (below c) (Q @ [T])"
    using assms(3) bel by (simp add: queueOk_def sorted_wrt_append)
  then show ?thesis
    unfolding queueOk_def using old new wfT wfQ by auto
qed

lemma logOk_drain:
  assumes "tableOk c fl lo T" "logOk c lo (fst ` set T) Q L"
  shows "logOk c (drained c lo T) (fst ` set T) (Q @ [T]) L"
proof -
  let ?K = "fst ` set T" and ?lo' = "drained c lo T"
  have a: "x \<le> v" if "x \<in> set L" "v \<in> vals c T" for x v
  proof -
    from table_vals_ge [OF assms(1) that(2)] obtain p where p: "p \<in> ?K" and le: "lo p \<le> v" by blast
    from assms(2) that(1) p have "x \<le> lo p" unfolding logOk_def by blast
    with le show ?thesis by simp
  qed
  have b: "x \<le> ?lo' p" if "x \<in> set L" "p \<in> ?K" for x p
  proof -
    from assms(2) that have "x \<le> lo p" unfolding logOk_def by blast
    with drained_ge(1) [OF assms(1) that(2)] show ?thesis by simp
  qed
  show ?thesis using assms(2) a b unfolding logOk_def by auto
qed

lemma queueOk_pop: "queueOk c lo K (S # Q) \<Longrightarrow> queueOk c lo K Q"
  unfolding queueOk_def by simp

lemma sorted_all_le: "(\<forall>x \<in> set H. \<forall>y \<in> set H. x \<le> (y::Timestamp)) \<Longrightarrow> sorted H"
  by (induction H) auto

lemma logOk_pop:
  assumes "queueOk c lo K (S # Q)" "logOk c lo K (S # Q) L"
    and "\<forall>h \<in> set H. h \<in> vals c S \<and> (\<forall>v \<in> vals c S. h \<le> v)"
  shows "logOk c lo K Q (L @ H)"
proof -
  have 1: "sorted H" using assms(3) by (intro sorted_all_le) blast
  have 2: "x \<le> h" if "x \<in> set L" "h \<in> set H" for x h
    using assms(2,3) that unfolding logOk_def by auto
  have 3: "h \<le> v'" if "h \<in> set H" "S' \<in> set Q" "v' \<in> vals c S'" for h S' v'
  proof -
    from assms(1) that(2) have "below c S S'" by (simp add: queueOk_def)
    with that(3) obtain v where "v \<in> vals c S" "v \<le> v'" unfolding below_def by blast
    with assms(3) that(1) show ?thesis by (meson order_trans)
  qed
  have 4: "h \<le> lo p" if "h \<in> set H" "p \<in> K" for h p
  proof -
    from assms(1) that(2) obtain v where "v \<in> vals c S" "v \<le> lo p"
      unfolding queueOk_def by auto
    with assms(3) that(1) show ?thesis by (meson order_trans)
  qed
  have "sorted (L @ H)" using assms(2) 1 2 by (auto simp: logOk_def sorted_append)
  moreover have "\<forall>x \<in> set L. (\<forall>S' \<in> set Q. \<forall>v \<in> vals c S'. x \<le> v) \<and> (\<forall>p \<in> K. x \<le> lo p)"
    using assms(2) unfolding logOk_def by auto
  ultimately show ?thesis using 3 4 unfolding logOk_def by auto
qed

lemma steady_sendToChannel:
  assumes "steady c fl lo t L"
  shows "\<exists>lo'. steady c fl lo' (sendToChannel t) L"
proof (cases "roundComplete (proxyTimeTick t)")
  case False
  then show ?thesis using assms by (auto simp: sendToChannel_incomplete)
next
  case True
  let ?T = "proxyTimeTick t"
  note d = sendToChannel_complete [OF True]
  from assms have ch: "chanOk (sendChan t)" and tb: "tableOk c fl lo ?T"
    and q: "queueOk c lo (fst ` set ?T) (pending (sendChan t))"
    and l: "logOk c lo (fst ` set ?T) (pending (sendChan t)) L"
    by (simp_all add: steady_def)
  from pending_send [OF ch, of ?T]
  have p: "pending (chan_send (sendChan t) ?T) = pending (sendChan t) @ [?T]"
    and ch': "chanOk (chan_send (sendChan t) ?T)" by simp_all
  have "steady c fl (drained c lo ?T) (sendToChannel t) L"
    unfolding steady_def d
    using ch' tableOk_clearAll [OF tb] queueOk_drain [OF True tb q] logOk_drain [OF tb l]
    by (simp add: p keys_clearAll)
  then show ?thesis by blast
qed

lemma steady_table:
  assumes "steady c fl lo t L" "tableOk c fl lo T'" "fst ` set T' \<subseteq> fst ` set (proxyTimeTick t)"
  shows "steady c fl lo (t\<lparr>proxyTimeTick := T'\<rparr>) L"
  using assms unfolding steady_def
  by (auto intro: queueOk_mono logOk_mono)

lemma steady_raise:
  "steady c fl lo t L \<Longrightarrow> fl p \<le> v \<Longrightarrow> steady c (fl(p := v)) lo t L"
  unfolding steady_def by (auto intro: tableOk_raise)

lemma distinct_fold_update:
  "distinct (map fst acc) \<Longrightarrow>
   distinct (map fst (fold (\<lambda>(name, ts) m. AList.update name ts m) xs acc))"
  by (induction xs arbitrary: acc) (auto simp: distinct_update)

lemma wfReport_new: "wfReport (newChanTsMsg inp n)"
  by (simp add: wfReport_def newChanTsMsg_def distinct_fold_update)

lemma getTimetick_new: "getTimetick (newChanTsMsg inp n) c = reportedFor c inp"
  by (simp add: reportedFor_def getTimetick_def newChanTsMsg_def split: option.splits)

lemma steady_updateTimeTick:
  assumes "steady c fl lo t L" "fl (SourceID inp) \<le> reportedFor c inp"
  shows "\<exists>lo'. steady c (fl(SourceID inp := reportedFor c inp)) lo'
           (snd (updateTimeTick inp reason t)) L"
proof -
  let ?p = "SourceID inp" and ?fl = "fl(SourceID inp := reportedFor c inp)"
  have st: "steady c ?fl lo t L" by (rule steady_raise [OF assms])
  show ?thesis
  proof (cases "fst (updateTimeTick inp reason t) = Updated")
    case False
    then have "snd (updateTimeTick inp reason t) = t"
      by (auto simp: updateTimeTick_def Let_def split: option.splits if_splits)
    then show ?thesis using st by auto
  next
    case True
    then obtain prev where p: "map_of (proxyTimeTick t) ?p = Some prev"
      by (auto simp: updateTimeTick_def Let_def split: option.splits if_splits)
    let ?msg = "case prev of None \<Rightarrow> newChanTsMsg inp 1 | Some q \<Rightarrow> newChanTsMsg inp (cnt q + 1)"
    let ?T = "AList.update ?p (Some ?msg) (proxyTimeTick t)"
    have s: "snd (updateTimeTick inp reason t) = sendToChannel (t\<lparr>proxyTimeTick := ?T\<rparr>)"
      using True p by (auto simp: updateTimeTick_def Let_def split: option.splits if_splits)
    have tb: "tableOk c ?fl lo (proxyTimeTick t)" using st by (simp add: steady_def)
    have k: "?p \<in> fst ` set (proxyTimeTick t)" by (rule map_of_keys [OF p])
    have v: "getTimetick ?msg c = reportedFor c inp" and wf: "wfReport ?msg"
      by (cases prev; simp add: getTimetick_new wfReport_new)+
    from tableOk_lookup [OF tb p] have "lo ?p \<le> ?fl ?p" by (simp add: entryOk_def)
    then have "entryOk c ?fl lo ?p (Some ?msg)" using v wf by (simp add: entryOk_def)
    then have tb': "tableOk c ?fl lo ?T" by (rule tableOk_update [OF tb])
    have "steady c ?fl lo (t\<lparr>proxyTimeTick := ?T\<rparr>) L"
      by (rule steady_table [OF st tb']) (simp add: keys_update_present [OF k])
    from steady_sendToChannel [OF this] show ?thesis by (simp add: s)
  qed
qed

lemma steady_reset:
  assumes "steady c fl lo t L" "i \<in> fst ` set (proxyTimeTick t)"
  shows "steady c fl lo (t\<lparr>proxyTimeTick := AList.update i None (proxyTimeTick t)\<rparr>) L"
proof -
  have tb: "tableOk c fl lo (proxyTimeTick t)" using assms(1) by (simp add: steady_def)
  from assms(2) obtain v where v: "map_of (proxyTimeTick t) i = Some v"
    by (metis map_of_eq_None_iff not_Some_eq)
  from tableOk_lookup [OF tb v] have "entryOk c fl lo i None" by (rule entryOk_None)
  then have tb': "tableOk c fl lo (AList.update i None (proxyTimeTick t))"
    by (rule tableOk_update [OF tb])
  show ?thesis
    by (rule steady_table [OF assms(1) tb']) (simp add: keys_update_present [OF assms(2)])
qed

lemma steady_addProxy:
  "steady c fl lo t L \<Longrightarrow> i \<in> fst ` set (proxyTimeTick t) \<Longrightarrow> steady c fl lo (addProxy i t) L"
  by (simp add: addProxy_def steady_reset)

lemma steady_clearProxy:
  "steady c fl lo t L \<Longrightarrow> set is \<subseteq> fst ` set (proxyTimeTick t) \<Longrightarrow>
   steady c fl lo (clearProxy is t) L"
proof (induction "is" arbitrary: t)
  case Nil
  then show ?case by (simp add: clearProxy_def)
next
  case (Cons i "is")
  let ?t = "t\<lparr>proxyTimeTick := AList.update i None (proxyTimeTick t)\<rparr>"
  from Cons.prems have i: "i \<in> fst ` set (proxyTimeTick t)" by simp
  have st: "steady c fl lo ?t L" by (rule steady_reset [OF Cons.prems(1) i])
  have "set is \<subseteq> fst ` set (proxyTimeTick ?t)"
    using Cons.prems(2) by (simp add: keys_update_present [OF i])
  from Cons.IH [OF st this] show ?case by (simp add: clearProxy_def)
qed

lemma steady_delProxy:
  assumes "steady c fl lo t L"
  shows "\<exists>lo'. steady c fl lo' (delProxy i t) L"
proof (cases "map_of (proxyTimeTick t) i")
  case None
  then show ?thesis using assms by (auto simp: delProxy_def)
next
  case (Some a)
  have tb: "tableOk c fl lo (proxyTimeTick t)" using assms by (simp add: steady_def)
  have "steady c fl lo (t\<lparr>proxyTimeTick := AList.delete i (proxyTimeTick t)\<rparr>) L"
    using assms tableOk_delete [OF tb] keys_delete by (rule steady_table)
  from steady_sendToChannel [OF this] show ?thesis using Some by (simp add: delProxy_def)
qed

lemma steady_ddl:
  "steady c fl lo t L \<Longrightarrow> steady c fl lo (addDdlTimeTick x r t) L"
  "steady c fl lo t L \<Longrightarrow> steady c fl lo (removeDdlTimeTick x r t) L"
  by (simp_all add: steady_def addDdlTimeTick_def removeDdlTimeTick_def Let_def)

lemma onChannel_append [simp]: "onChannel c (xs @ ys) = onChannel c xs @ onChannel c ys"
  by (simp add: onChannel_def)

lemma onChannel_member: "h \<in> set (onChannel c ticks) \<longleftrightarrow> (c, h) \<in> set ticks"
  by (induction ticks) (auto simp: onChannel_def)

lemma steady_watchOnce:
  assumes "steady c fl lo t L" "watchOnce t = Some (r, t')"
  shows "steady c fl lo t' (L @ (case r of Inl f \<Rightarrow> [] | Inr ticks \<Rightarrow> onChannel c ticks))"
proof -
  from assms(2) obtain S ch' where rc: "chan_recv (sendChan t) = Some (S, ch')"
    and r: "r = reduceRound (sourceID t) S" and t': "t' = t\<lparr>sendChan := ch'\<rparr>"
    by (auto simp: watchOnce_def split: option.splits)
  from assms(1) have ch: "chanOk (sendChan t)" and tb: "tableOk c fl lo (proxyTimeTick t)"
    and q: "queueOk c lo (fst ` set (proxyTimeTick t)) (pending (sendChan t))"
    and l: "logOk c lo (fst ` set (proxyTimeTick t)) (pending (sendChan t)) L"
    by (simp_all add: steady_def)
  from pending_recv [OF ch rc] have p: "pending (sendChan t) = S # pending ch'"
    and ch': "chanOk ch'" by simp_all
  let ?H = "case r of Inl f \<Rightarrow> [] | Inr ticks \<Rightarrow> onChannel c ticks"
  have wf: "\<forall>tt \<in> set (entries S). distinct (map fst (chanTs tt))"
    using q unfolding queueOk_def p wfReport_def by simp
  have H: "\<forall>h \<in> set ?H. h \<in> vals c S \<and> (\<forall>v \<in> vals c S. h \<le> v)"
  proof (cases r)
    case (Inl f)
    then show ?thesis by simp
  next
    case (Inr ticks)
    have "h \<in> vals c S \<and> (\<forall>v \<in> vals c S. h \<le> v)" if "(c, h) \<in> set ticks" for h
    proof -
      have red: "reduceRound (sourceID t) S = Inr ticks" using r Inr by simp
      from reduceRound_attained [OF red that wf] have "h \<in> vals c S" by (auto simp: vals_def)
      moreover have "h \<le> v" if "v \<in> vals c S" for v
        using reduceRound_le [OF red \<open>(c, h) \<in> set ticks\<close>] that by (auto simp: vals_def)
      ultimately show ?thesis by blast
    qed
    then show ?thesis using Inr by (simp add: onChannel_member)
  qed
  have "logOk c lo (fst ` set (proxyTimeTick t)) (pending ch') (L @ ?H)"
    using q l H unfolding p by (rule logOk_pop)
  moreover have "queueOk c lo (fst ` set (proxyTimeTick t)) (pending ch')"
    using q unfolding p by (rule queueOk_pop)
  ultimately show ?thesis using ch' tb by (simp add: steady_def t')
qed

lemma monotoneFrom_Cons:
  "monotoneFrom fl c (e # es) \<longleftrightarrow> floorOk fl c e \<and> monotoneFrom (nextFloor fl c e) c es"
  by (cases e) (simp_all add: floorOk_def nextFloor_def)

lemma noJoin_Cons: "noJoin (e # es) w \<longleftrightarrow> present e w \<and> noJoin es (step e w)"
  by (cases e) (simp_all add: present_def)

lemma steady_nextFloor:
  "steady c fl lo t L \<Longrightarrow> floorOk fl c e \<Longrightarrow> steady c (nextFloor fl c e) lo t L"
  by (cases e) (simp_all add: floorOk_def nextFloor_def steady_raise)

lemma steady_step:
  assumes "steady c fl lo (sync w) (onChannel c (sent w))" "floorOk fl c e" "present e w"
  shows "\<exists>lo'. steady c (nextFloor fl c e) lo' (sync (step e w)) (onChannel c (sent (step e w)))"
proof (cases "panicked w")
  case True
  then show ?thesis using steady_nextFloor [OF assms(1,2)] by (auto simp: step_def)
next
  case False
  then have s: "step e' w = act e' w" for e' by (simp add: step_def)
  show ?thesis
  proof (cases e)
    case (AddProxy i)
    have "i \<in> fst ` set (proxyTimeTick (sync w))"
      using assms(3) by (simp add: present_def AddProxy)
    from steady_addProxy [OF assms(1) this]
    have "steady c (nextFloor fl c e) lo (sync (step e w)) (onChannel c (sent (step e w)))"
      by (simp add: s AddProxy nextFloor_def)
    then show ?thesis by blast
  next
    case (DelProxy i)
    then show ?thesis using steady_delProxy [OF assms(1), of i]
      by (auto simp: s nextFloor_def)
  next
    case (ClearProxy "is")
    have "set is \<subseteq> fst ` set (proxyTimeTick (sync w))"
      using assms(3) by (simp add: present_def ClearProxy)
    from steady_clearProxy [OF assms(1) this]
    have "steady c (nextFloor fl c e) lo (sync (step e w)) (onChannel c (sent (step e w)))"
      by (simp add: s ClearProxy nextFloor_def)
    then show ?thesis by blast
  next
    case (UpdateTimeTick inp reason)
    then show ?thesis using steady_updateTimeTick [OF assms(1), of inp reason] assms(2)
      by (auto simp: s nextFloor_def floorOk_def)
  next
    case (AddDdlTimeTick x r)
    then show ?thesis using steady_ddl(1) [OF assms(1)]
      by (auto simp: s nextFloor_def)
  next
    case (RemoveDdlTimeTick x r)
    then show ?thesis using steady_ddl(2) [OF assms(1)]
      by (auto simp: s nextFloor_def)
  next
    case Watch
    show ?thesis
    proof (cases "watchOnce (sync w)")
      case None
      then show ?thesis using assms(1) Watch by (auto simp: s nextFloor_def)
    next
      case (Some a)
      obtain r t' where a: "a = (r, t')" by (cases a)
      from steady_watchOnce [OF assms(1) Some [unfolded a]]
      show ?thesis using Watch Some a by (cases r) (auto simp: s nextFloor_def)
    qed
  qed
qed

lemma steady_run:
  "steady c fl lo (sync w) (onChannel c (sent w)) \<Longrightarrow> monotoneFrom fl c es \<Longrightarrow> noJoin es w \<Longrightarrow>
   \<exists>fl' lo'. steady c fl' lo' (sync (run es w)) (onChannel c (sent (run es w)))"
proof (induction es arbitrary: w fl lo)
  case Nil
  then show ?case by (auto simp: run_def)
next
  case (Cons e es)
  from Cons.prems(2) have f: "floorOk fl c e" and m: "monotoneFrom (nextFloor fl c e) c es"
    by (simp_all add: monotoneFrom_Cons)
  from Cons.prems(3) have p: "present e w" and n: "noJoin es (step e w)"
    by (simp_all add: noJoin_Cons)
  from steady_step [OF Cons.prems(1) f p] obtain lo' where
    "steady c (nextFloor fl c e) lo' (sync (step e w)) (onChannel c (sent (step e w)))" by blast
  from Cons.IH [OF this m n] show ?case by (simp add: run_def)
qed

lemma settled_steady:
  assumes "settled w"
  shows "steady c (\<lambda>p. 0) (\<lambda>p. 0) (sync w) (onChannel c (sent w))"
proof -
  let ?T = "proxyTimeTick (sync w)"
  have none: "v = None" if "map_of ?T p = Some v" for p v
  proof (cases v)
    case None
    then show ?thesis .
  next
    case (Some m)
    with that have "(p, Some m) \<in> set ?T" by (auto dest: map_of_SomeD)
    then have "m \<in> set (entries ?T)" by (auto simp: entries_iff)
    with assms show ?thesis by (simp add: settled_def)
  qed
  have "entryOk c (\<lambda>p. 0) (\<lambda>p. 0) p v" if "map_of ?T p = Some v" for p v
    using none [OF that] by (simp add: entryOk_def)
  moreover have "distinct (map fst ?T)" using assms by (simp add: settled_def)
  ultimately have "tableOk c (\<lambda>p. 0) (\<lambda>p. 0) ?T"
    unfolding tableOk_def by blast
  then show ?thesis
    using assms
    by (simp add: steady_def settled_def chanOk_def pending_def queueOk_def logOk_def onChannel_def)
qed

text \<open>
  C2, as stated, fails across a round in which a proxy is added: the coordinator alone
  sends 200 on \<open>c0\<close>; proxy 2 then joins and its first report gives \<open>c0\<close> the value 150,
  so the next time tick on \<open>c0\<close> is 150, although each proxy's own values never decrease.
\<close>

theorem heartbeat_monotone_counterexample:
  "sent (run [AddProxy 1, UpdateTimeTick (tick 1 [''c0''] [200] 200) ''tick'', Watch,
              AddProxy 2, UpdateTimeTick (tick 1 [''c0''] [300] 300) ''tick'',
              UpdateTimeTick (tick 2 [''c0''] [150] 150) ''tick'', Watch] (boot 1))
     = [(''c0'', 200), (''c0'', 150)]
   \<and> (150 :: Timestamp) < 200"
  by (simp add: run_def step_def boot_def model_defs)

text \<open>
  C2, amended: take a run that starts with no report in the table, nothing in the
  channel and no time tick sent, in which the reports of each proxy never give channel
  \<open>c\<close> a smaller value (listed, or else the default timestamp) than the report of that
  proxy before, and in which no proxy is registered that is not in the table; proxies
  may be removed. Then the time ticks sent on \<open>c\<close>, in the order of the iterations of
  the watch loop, never decrease.
\<close>

theorem broadcasts_nondecreasing:
  assumes "settled w" and "monotoneFrom (\<lambda>p. 0) c es" and "noJoin es w"
  shows "sorted (onChannel c (sent (run es w)))"
proof -
  from steady_run [OF settled_steady [OF assms(1)] assms(2,3)]
  obtain fl' lo' where "steady c fl' lo' (sync (run es w)) (onChannel c (sent (run es w)))"
    by blast
  then show ?thesis by (simp add: steady_def logOk_def)
qed

theorem broadcasts_nondecreasing_witness:
  "settled (run [AddProxy 1, AddProxy 2] (boot 1))
   \<and> monotoneFrom (\<lambda>p. 0) ''c0''
       [UpdateTimeTick (tick 1 [''c0''] [200] 200) ''tick'',
        UpdateTimeTick (tick 2 [] [] 150) ''tick'', Watch, DelProxy 2,
        UpdateTimeTick (tick 1 [''c0''] [300] 300) ''tick'', Watch]
   \<and> noJoin
       [UpdateTimeTick (tick 1 [''c0''] [200] 200) ''tick'',
        UpdateTimeTick (tick 2 [] [] 150) ''tick'', Watch, DelProxy 2,
        UpdateTimeTick (tick 1 [''c0''] [300] 300) ''tick'', Watch]
       (run [AddProxy 1, AddProxy 2] (boot 1))
   \<and> onChannel ''c0'' (sent (run
       [UpdateTimeTick (tick 1 [''c0''] [200] 200) ''tick'',
        UpdateTimeTick (tick 2 [] [] 150) ''tick'', Watch, DelProxy 2,
        UpdateTimeTick (tick 1 [''c0''] [300] 300) ''tick'', Watch]
       (run [AddProxy 1, AddProxy 2] (boot 1)))) = [150, 300]
   \<and> sorted (onChannel ''c0'' (sent (run
       [UpdateTimeTick (tick 1 [''c0''] [200] 200) ''tick'',
        UpdateTimeTick (tick 2 [] [] 150) ''tick'', Watch, DelProxy 2,
        UpdateTimeTick (tick 1 [''c0''] [300] 300) ''tick'', Watch]
       (run [AddProxy 1, AddProxy 2] (boot 1)))))"
proof -
  let ?w = "run [AddProxy 1, AddProxy 2] (boot 1)"
  let ?es = "[UpdateTimeTick (tick 1 [''c0''] [200] 200) ''tick'',
        UpdateTimeTick (tick 2 [] [] 150) ''tick'', Watch, DelProxy 2,
        UpdateTimeTick (tick 1 [''c0''] [300] 300) ''tick'', Watch]"
  have 1: "settled ?w" by (simp add: settled_def run_def step_def boot_def model_defs)
  have 2: "monotoneFrom (\<lambda>p. 0) ''c0'' ?es" by (simp add: reportedFor_def model_defs)
  have 3: "noJoin ?es ?w" by (simp add: run_def step_def boot_def model_defs)
  have 4: "onChannel ''c0'' (sent (run ?es ?w)) = [150, 300]"
    by (simp add: onChannel_def run_def step_def boot_def model_defs)
  show ?thesis using broadcasts_nondecreasing [OF 1 2 3] 1 2 3 4 by blast
qed

end
